theory Spec2Isabelle
  imports Main "HOL-Library.Multiset"
begin

section \<open>The document hierarchy of \<^verbatim>\<open>doorstop/core/processor.py\<close>\<close>

subsection \<open>Data model\<close>

text \<open>
  Modelled from the spec: the classes \<^verbatim>\<open>Item\<close> and \<^verbatim>\<open>Document\<close> belong to the
  collaborators \<^verbatim>\<open>doorstop.core.item\<close> and \<^verbatim>\<open>doorstop.core.document\<close>. The records
  hold the attributes the processor reads: \<^verbatim>\<open>number\<close> and \<^verbatim>\<open>id\<close> of an item and
  its set of links; \<^verbatim>\<open>path\<close>, \<^verbatim>\<open>root\<close>, \<^verbatim>\<open>prefix\<close> and \<^verbatim>\<open>parent\<close> of a document,
  where \<^verbatim>\<open>parent\<close> is a string or \<^verbatim>\<open>None\<close>, and the items it yields when iterated.
  Items are objects that \<^verbatim>\<open>link\<close> mutates in place, so they live in a store and
  a document lists the addresses of its items in iteration order.
\<close>

type_synonym addr = nat

record item =
  number :: int
  item_id :: string
  links :: "string set"

type_synonym store = "addr \<Rightarrow> item"

record document =
  path :: string
  root :: string
  prefix :: string
  parent :: "string option"
  items :: "addr list"

text \<open>
  \<^verbatim>\<open>DoorstopError\<close> carries a message; one constructor per message of the
  processor, holding the value formatted into it. \<open>Collaborator\<close> stands for an
  error raised by a collaborator (\<^verbatim>\<open>Item.split_id\<close>, \<^verbatim>\<open>Document.new\<close>,
  \<^verbatim>\<open>Document.check\<close>) and passed on.
\<close>

datatype error =
    NoRootDocument                \<comment> \<open>\<^verbatim>\<open>"no root document"\<close>\<close>
  | UnplacedDocument document     \<comment> \<open>\<^verbatim>\<open>"unplaced document: {}"\<close>\<close>
  | NoParentFor document          \<comment> \<open>\<^verbatim>\<open>"no parent for: {}"\<close>\<close>
  | NoMatchingChildID string      \<comment> \<open>\<^verbatim>\<open>"no matching child ID: {}"\<close>\<close>
  | NoMatchingParentID string     \<comment> \<open>\<^verbatim>\<open>"no matching parent ID: {}"\<close>\<close>
  | IndexError                    \<comment> \<open>Python's own error of \<^verbatim>\<open>unplaced[0]\<close> on an empty list\<close>
  | Collaborator string

text \<open>
  A node wraps one document and owns the ordered list of its children. The
  \<^verbatim>\<open>parent\<close> back-reference of a node is set once, by \<^verbatim>\<open>Node(doc, self)\<close> at the
  moment the node is appended to \<^verbatim>\<open>self.children\<close>, and is never read by the code
  modelled here: the tree-parent of a node is the node that holds it as a child.
\<close>

datatype node = Node (document: document) (children: "node list")

subsection \<open>Size and iteration\<close>

text \<open>\<^verbatim>\<open>__len__\<close>: one plus the sizes of the children.\<close>

fun len :: "node \<Rightarrow> nat" where
  "len (Node d cs) = 1 + sum_list (map len cs)"

text \<open>\<^verbatim>\<open>__iter__\<close>: the node's document, then the documents of each child in turn.\<close>

fun iter :: "node \<Rightarrow> document list" where
  "iter (Node d cs) = d # concat (map iter cs)"

subsection \<open>Placing a document\<close>

text \<open>
  \<^verbatim>\<open>place\<close> mutates the tree and signals failure by an exception, so the model
  returns both: the error raised, if any, and the tree as it is after the call.
  \<open>place_children\<close> is the loop over \<^verbatim>\<open>self.children\<close>: it stops at the first
  child that accepts the document (\<^verbatim>\<open>break\<close>) and reports whether one did; the
  \<^verbatim>\<open>else\<close> branch of the loop raises. The test \<^verbatim>\<open>doc.parent == self.document.prefix\<close>
  is Python's equality of an optional string with a string.
\<close>

fun place :: "node \<Rightarrow> document \<Rightarrow> error option \<times> node"
  and place_children :: "node list \<Rightarrow> document \<Rightarrow> bool \<times> node list" where
  "place (Node d cs) doc =
     (if parent doc = Some (prefix d) then (None, Node d (cs @ [Node doc []]))
      else (case place_children cs doc of
              (True, cs') \<Rightarrow> (None, Node d cs')
            | (False, cs') \<Rightarrow> (Some (NoParentFor doc), Node d cs')))"
| "place_children [] doc = (False, [])"
| "place_children (c # cs) doc =
     (case place c doc of
        (None, c') \<Rightarrow> (True, c' # cs)
      | (Some e, c') \<Rightarrow> (case place_children cs doc of (placed, cs') \<Rightarrow> (placed, c' # cs')))"

subsection \<open>Building the tree from a list\<close>

text \<open>
  One pass of the \<^verbatim>\<open>for doc in list(unplaced)\<close> loop: the second argument is what
  is left of the snapshot, the third the list \<^verbatim>\<open>unplaced\<close> itself, from which
  \<^verbatim>\<open>unplaced.remove(doc)\<close> deletes the first element equal to \<^verbatim>\<open>doc\<close>. A
  failed \<^verbatim>\<open>place\<close> is logged and the document stays in \<^verbatim>\<open>unplaced\<close>.
\<close>

fun place_pass :: "node \<Rightarrow> document list \<Rightarrow> document list \<Rightarrow> node \<times> document list" where
  "place_pass tree [] unplaced = (tree, unplaced)"
| "place_pass tree (doc # docs) unplaced =
     (case place tree doc of
        (None, tree') \<Rightarrow> place_pass tree' docs (remove1 doc unplaced)
      | (Some e, tree') \<Rightarrow> place_pass tree' docs unplaced)"

text \<open>The \<^verbatim>\<open>while unplaced\<close> loop.\<close>

function place_loop :: "node \<Rightarrow> document list \<Rightarrow> error + node" where
  "place_loop tree unplaced =
     (if unplaced = [] then Inr tree
      else (case place_pass tree unplaced unplaced of
              (tree', unplaced') \<Rightarrow>
                if length unplaced' = length unplaced
                then (case unplaced' of
                        [] \<Rightarrow> Inl IndexError
                      | doc # _ \<Rightarrow> Inl (UnplacedDocument doc))
                else place_loop tree' unplaced'))"
  by pat_completeness auto
termination
proof (relation "measure (\<lambda>(tree, unplaced). length unplaced)")
  show "wf (measure (\<lambda>(tree, unplaced). length unplaced))"
    by simp
next
  fix tree tree' :: node and unplaced unplaced' :: "document list"
  assume pass: "(tree', unplaced') = place_pass tree unplaced unplaced"
    and progress: "length unplaced' \<noteq> length unplaced"
  have "length (snd (place_pass t ds u)) \<le> length u" for t ds u
  proof (induction ds arbitrary: t u)
    case Nil
    show ?case by simp
  next
    case (Cons doc ds)
    have "length (remove1 doc u) \<le> length u"
      by (cases "doc \<in> set u") (simp_all add: length_remove1 remove1_idem)
    with Cons.IH [of _ "remove1 doc u"] Cons.IH [of _ u] show ?case
      by (auto split: prod.splits option.splits intro: order_trans)
  qed
  from this [of tree unplaced unplaced] pass [symmetric] progress
  show "((tree', unplaced'), (tree, unplaced)) \<in> measure (\<lambda>(tree, unplaced). length unplaced)"
    by simp
qed

declare place_loop.simps [simp del]

text \<open>
  \<^verbatim>\<open>from_list\<close>: the first document whose \<^verbatim>\<open>parent\<close> is \<^verbatim>\<open>None\<close> becomes the
  root and is removed from \<^verbatim>\<open>unplaced\<close>; the \<^verbatim>\<open>else\<close> branch of the search loop
  raises.
\<close>

definition from_list :: "document list \<Rightarrow> error + node" where
  "from_list docs =
     (case find (\<lambda>doc. parent doc = None) docs of
        None \<Rightarrow> Inl NoRootDocument
      | Some doc \<Rightarrow> place_loop (Node doc []) (remove1 doc docs))"

subsection \<open>Checking the tree\<close>



subsection \<open>Creating a document\<close>

text \<open>
  The file system is the set of paths that exist. \<^verbatim>\<open>shutil.rmtree(p)\<close> removes
  \<^verbatim>\<open>p\<close> and every path below it, and always completes: errors of the operating
  system are outside the model. \<^verbatim>\<open>Document.new\<close> belongs to the document
  collaborator and is a parameter of the model: it creates the storage and
  returns the document, or raises.
\<close>

type_synonym fs = "string \<Rightarrow> bool"

definition below :: "string \<Rightarrow> string \<Rightarrow> bool" where
  "below p q \<longleftrightarrow> q = p \<or> take (length p + 1) q = p @ ''/''"

definition rmtree :: "string \<Rightarrow> fs \<Rightarrow> fs" where
  "rmtree p files = (\<lambda>q. files q \<and> \<not> below p q)"

type_synonym document_factory =
  "string \<Rightarrow> string \<Rightarrow> string \<Rightarrow> string option \<Rightarrow> nat option \<Rightarrow> fs \<Rightarrow> (error + document) \<times> fs"

text \<open>
  \<^verbatim>\<open>Node.new\<close> returns the result, the tree after the call and the file system
  after the call.
\<close>

definition new ::
  "document_factory \<Rightarrow> node \<Rightarrow> string \<Rightarrow> string \<Rightarrow> string option \<Rightarrow> nat option \<Rightarrow> fs
    \<Rightarrow> (error + document) \<times> node \<times> fs" where
  "new document_new self pth pre par digits files =
     (case document_new pth (root (document self)) pre par digits files of
        (Inl e, files1) \<Rightarrow> (Inl e, self, files1)
      | (Inr doc, files1) \<Rightarrow>
          (case place self doc of
             (None, self') \<Rightarrow> (Inr doc, self', files1)
           | (Some e, self') \<Rightarrow>
               (Inl e, self',
                if files1 (path doc) then rmtree (path doc) files1 else files1)))"

subsection \<open>Linking two items\<close>

text \<open>
  \<^verbatim>\<open>str.lower()\<close> on ASCII text: the letters A to Z are mapped to a to z and
  every other character is kept.
\<close>

definition lower_char :: "char \<Rightarrow> char" where
  "lower_char c =
     (let n = (of_char c :: nat) in if 65 \<le> n \<and> n \<le> 90 then char_of (n + 32) else c)"

definition lower :: "string \<Rightarrow> string" where
  "lower s = map lower_char s"

text \<open>
  The search of \<^verbatim>\<open>link\<close> for an item: documents in iteration order; in a document
  whose prefix matches, the first item with the number; a matching document
  without such an item only logs a warning and the search goes on.
\<close>

fun find_item :: "store \<Rightarrow> document list \<Rightarrow> string \<Rightarrow> int \<Rightarrow> addr option" where
  "find_item st [] pre num = None"
| "find_item st (d # ds) pre num =
     (if lower (prefix d) = lower pre
      then (case find (\<lambda>a. number (st a) = num) (items d) of
              Some a \<Rightarrow> Some a
            | None \<Rightarrow> find_item st ds pre num)
      else find_item st ds pre num)"

text \<open>
  Modelled from the spec: \<^verbatim>\<open>Item.add_link\<close> is not part of the processor; the
  spec gives an item a mutable set of outgoing links to item IDs, to which
  \<^verbatim>\<open>addLink\<close> adds its argument.
\<close>

definition add_link :: "item \<Rightarrow> string \<Rightarrow> item" where
  "add_link it i = it\<lparr>links := insert i (links it)\<rparr>"

text \<open>
  \<^verbatim>\<open>Item.split_id\<close> belongs to the item collaborator and is a parameter of the
  model: it returns the prefix and the number of an ID, or raises. \<^verbatim>\<open>link\<close>
  returns the pair of items as addresses, together with the store after the call.
\<close>

definition link ::
  "(string \<Rightarrow> error + string \<times> int) \<Rightarrow> node \<Rightarrow> string \<Rightarrow> string \<Rightarrow> store
    \<Rightarrow> (error + addr \<times> addr) \<times> store" where
  "link split_id self cid pid st =
     (case split_id cid of
        Inl e \<Rightarrow> (Inl e, st)
      | Inr (pre, num) \<Rightarrow>
          (case find_item st (iter self) pre num of
             None \<Rightarrow> (Inl (NoMatchingChildID cid), st)
           | Some child \<Rightarrow>
               (case split_id pid of
                  Inl e \<Rightarrow> (Inl e, st)
                | Inr (pre', num') \<Rightarrow>
                    (case find_item st (iter self) pre' num' of
                       None \<Rightarrow> (Inl (NoMatchingParentID cid), st)
                     | Some parent_item \<Rightarrow>
                         (Inr (child, parent_item),
                          st(child := add_link (st child) (item_id (st parent_item))))))))"

subsection \<open>Notions used in the statements\<close>

text \<open>
  A tree is \<open>linked\<close> when every node below the root declares the prefix of its
  tree-parent as its parent. The \<open>edges\<close> of a tree are the pairs of the prefix of
  a node and the prefix of one of its children. A tree \<open>accepts\<close> a document when
  one of its documents has the prefix the document declares as its parent.
\<close>

fun linked :: "node \<Rightarrow> bool" where
  "linked (Node d cs) \<longleftrightarrow> (\<forall>c\<in>set cs. parent (document c) = Some (prefix d) \<and> linked c)"

fun edges :: "node \<Rightarrow> (string \<times> string) set" where
  "edges (Node d cs) = (\<lambda>c. (prefix d, prefix (document c))) ` set cs \<union> (\<Union>c\<in>set cs. edges c)"

definition accepts :: "node \<Rightarrow> document \<Rightarrow> bool" where
  "accepts t doc \<longleftrightarrow> (\<exists>d\<in>set (iter t). parent doc = Some (prefix d))"

text \<open>
  The documents of \<open>D\<close> connected to \<open>r\<close>: \<open>r\<close> itself, and every document that
  declares the prefix of a connected document as its parent. \<open>references D\<close> are
  the pairs of a declared parent and the declaring prefix over the documents of \<open>D\<close>.
\<close>

inductive_set connected :: "document \<Rightarrow> document set \<Rightarrow> document set"
  for r :: document and D :: "document set" where
  root: "r \<in> connected r D"
| child: "d \<in> D \<Longrightarrow> parent d = Some (prefix d') \<Longrightarrow> d' \<in> connected r D \<Longrightarrow> d \<in> connected r D"

definition references :: "document set \<Rightarrow> (string \<times> string) set" where
  "references D = {(p, prefix d) |p d. d \<in> D \<and> parent d = Some p}"

text \<open>
  The states of the \<^verbatim>\<open>while\<close> loop of \<^verbatim>\<open>from_list\<close>, as pairs of the tree and the
  list \<^verbatim>\<open>unplaced\<close> at the head of the loop: the state after the root was chosen,
  and the state after each pass that removed a document. A state is \<open>stuck\<close> when
  documents remain and a full pass removes none.
\<close>

definition stuck :: "node \<Rightarrow> document list \<Rightarrow> bool" where
  "stuck tree unplaced \<longleftrightarrow>
     unplaced \<noteq> [] \<and> length (snd (place_pass tree unplaced unplaced)) = length unplaced"

inductive reached :: "document list \<Rightarrow> node \<Rightarrow> document list \<Rightarrow> bool"
  for docs :: "document list" where
  start: "find (\<lambda>doc. parent doc = None) docs = Some r \<Longrightarrow> reached docs (Node r []) (remove1 r docs)"
| pass: "reached docs t u \<Longrightarrow> u \<noteq> [] \<Longrightarrow> place_pass t u u = (t', u') \<Longrightarrow>
    length u' \<noteq> length u \<Longrightarrow> reached docs t' u'"

subsection \<open>Example documents and collaborators\<close>

text \<open>
  The documents of the scenarios: \<open>REQ\<close> is a root, \<open>HLT\<close> follows \<open>REQ\<close>, \<open>LLT\<close>
  follows \<open>HLT\<close>, \<open>C\<close> declares a parent \<open>Z\<close> that no document has, \<open>doc_hlt\<close>
  is \<open>HLT\<close> with its parent written in lower case, and \<open>E\<close> declares the empty
  string as its parent. Item 0 is \<open>REQ1\<close> and item 1 is
  \<open>HLT1\<close>. The example collaborators split the IDs of the scenarios, create a
  document with its directory, and reject the document \<open>HLT\<close>.
\<close>

definition doc_REQ :: document where
  "doc_REQ = \<lparr>path = ''/repo/req'', root = ''/repo'', prefix = ''REQ'', parent = None, items = [0]\<rparr>"
definition doc_HLT :: document where
  "doc_HLT = \<lparr>path = ''/repo/hlt'', root = ''/repo'', prefix = ''HLT'', parent = Some ''REQ'', items = [1]\<rparr>"
definition doc_LLT :: document where
  "doc_LLT = \<lparr>path = ''/repo/llt'', root = ''/repo'', prefix = ''LLT'', parent = Some ''HLT'', items = []\<rparr>"
definition doc_C :: document where
  "doc_C = \<lparr>path = ''/repo/c'', root = ''/repo'', prefix = ''C'', parent = Some ''Z'', items = []\<rparr>"
definition doc_hlt :: document where
  "doc_hlt = \<lparr>path = ''/repo/hlt'', root = ''/repo'', prefix = ''HLT'', parent = Some ''req'', items = [1]\<rparr>"
definition doc_E :: document where
  "doc_E = \<lparr>path = ''/repo/e'', root = ''/repo'', prefix = ''E'', parent = Some [], items = []\<rparr>"

definition example_store :: store where
  "example_store = (\<lambda>a. if a = 0 then \<lparr>number = 1, item_id = ''REQ1'', links = {}\<rparr>
                         else \<lparr>number = 1, item_id = ''HLT1'', links = {}\<rparr>)"

definition example_split_id :: "string \<Rightarrow> error + string \<times> int" where
  "example_split_id s =
     (if s = ''REQ1'' then Inr (''REQ'', 1)
      else if s = ''HLT1'' then Inr (''HLT'', 1)
      else if s = ''hlt1'' then Inr (''hlt'', 1)
      else Inl (Collaborator ''invalid ID''))"

definition example_document_new :: document_factory where
  "example_document_new pth rt pre par digits files =
     (Inr \<lparr>path = pth, root = rt, prefix = pre, parent = par, items = []\<rparr>, files(pth := True))"


section \<open>Properties\<close>

subsection \<open>Placing\<close>

lemma accepts_Node:
  "accepts (Node d cs) doc \<longleftrightarrow> parent doc = Some (prefix d) \<or> (\<exists>c\<in>set cs. accepts c doc)"
  by (auto simp: accepts_def)

lemma place_unchanged:
  "place t doc = (Some e, t') \<Longrightarrow> t' = t"
  "place_children cs doc = (False, cs') \<Longrightarrow> cs' = cs"
  by (induction t doc and cs doc arbitrary: e t' and cs' rule: place_place_children.induct)
    (auto split: prod.splits option.splits if_splits bool.splits)

lemma place_succeeds:
  "fst (place t doc) = None \<longleftrightarrow> accepts t doc"
  "fst (place_children cs doc) \<longleftrightarrow> (\<exists>c\<in>set cs. accepts c doc)"
proof (induction t doc and cs doc rule: place_place_children.induct)
  case (1 d cs doc)
  then show ?case
    by (cases "place_children cs doc") (auto simp: accepts_Node split: bool.splits)
next
  case (2 doc)
  show ?case by simp
next
  case (3 c cs doc)
  then show ?case
    by (cases "place c doc"; cases "place_children cs doc") (auto split: option.splits)
qed

lemma place_document: "document (snd (place t doc)) = document t"
  by (cases t) (auto split: prod.splits bool.splits)

lemma place_mset:
  "place t doc = (None, t') \<Longrightarrow> mset (iter t') = add_mset doc (mset (iter t))"
  "place_children cs doc = (True, cs') \<Longrightarrow>
     mset (concat (map iter cs')) = add_mset doc (mset (concat (map iter cs)))"
  by (induction t doc and cs doc arbitrary: t' and cs' rule: place_place_children.induct)
    (auto split: prod.splits option.splits if_splits bool.splits dest: place_unchanged)

lemma place_linked:
  "linked t \<Longrightarrow> linked (snd (place t doc))"
  "\<forall>c\<in>set cs. parent (document c) = Some p \<and> linked c \<Longrightarrow>
     \<forall>c\<in>set (snd (place_children cs doc)). parent (document c) = Some p \<and> linked c"
proof (induction t doc and cs doc arbitrary: and p rule: place_place_children.induct)
  case (1 d cs doc)
  from "1.prems" have kids: "\<forall>c\<in>set cs. parent (document c) = Some (prefix d) \<and> linked c"
    by simp
  show ?case
  proof (cases "parent doc = Some (prefix d)")
    case True
    with kids show ?thesis by simp
  next
    case False
    with "1.IH" [OF False kids] show ?thesis
      by (cases "place_children cs doc") (auto split: bool.splits)
  qed
next
  case (2 doc)
  then show ?case by simp
next
  case (3 c cs doc)
  then show ?case
    using place_document [of c doc]
    by (cases "place c doc"; cases "place_children cs doc") (auto split: option.splits)
qed


subsection \<open>One pass\<close>

lemma place_pass_length: "length (snd (place_pass t ds u)) \<le> length u"
proof (induction ds arbitrary: t u)
  case Nil
  show ?case by simp
next
  case (Cons doc ds)
  have "length (remove1 doc u) \<le> length u"
    by (cases "doc \<in> set u") (simp_all add: length_remove1 remove1_idem)
  with Cons.IH [of _ "remove1 doc u"] Cons.IH [of _ u] show ?case
    by (auto split: prod.splits option.splits intro: order_trans)
qed

lemma place_pass_subset: "set (snd (place_pass t ds u)) \<subseteq> set u"
proof (induction ds arbitrary: t u)
  case Nil
  show ?case by simp
next
  case (Cons doc ds)
  obtain r t1 where p: "place t doc = (r, t1)"
    by (cases "place t doc")
  show ?case
  proof (cases r)
    case None
    have "set (snd (place_pass t1 ds (remove1 doc u))) \<subseteq> set (remove1 doc u)"
      by (rule Cons.IH)
    also have "\<dots> \<subseteq> set u"
      by (rule set_remove1_subset)
    finally show ?thesis
      using p None by simp
  next
    case (Some e)
    with p Cons.IH [of t1 u] show ?thesis
      by simp
  qed
qed

lemma place_pass_document: "document (fst (place_pass t ds u)) = document t"
proof (induction ds arbitrary: t u)
  case Nil
  show ?case by simp
next
  case (Cons doc ds)
  then show ?case
    using place_document [of t doc]
    by (cases "place t doc") (auto split: option.splits)
qed

lemma place_pass_linked: "linked t \<Longrightarrow> linked (fst (place_pass t ds u))"
proof (induction ds arbitrary: t u)
  case Nil
  then show ?case by simp
next
  case (Cons doc ds)
  then show ?case
    using place_linked(1) [of t doc]
    by (cases "place t doc") (auto split: option.splits)
qed

lemma mset_subset_tail: "mset (x # xs) \<subseteq># mset u \<Longrightarrow> mset xs \<subseteq># mset u"
  by (metis mset.simps(2) mset_subset_eq_insertD subset_mset.less_imp_le)

lemma place_pass_mset:
  "mset ds \<subseteq># mset u \<Longrightarrow> place_pass t ds u = (t', u') \<Longrightarrow>
     mset (iter t') + mset u' = mset (iter t) + mset u"
proof (induction ds arbitrary: t u)
  case Nil
  then show ?case by simp
next
  case (Cons doc ds)
  from Cons.prems(1) have doc: "doc \<in># mset u" and rest: "mset ds \<subseteq># mset u - {#doc#}"
    by (auto simp: insert_subset_eq_iff)
  from Cons.prems(1) have rest': "mset ds \<subseteq># mset u"
    by (rule mset_subset_tail)
  obtain r t1 where p: "place t doc = (r, t1)"
    by (cases "place t doc")
  show ?case
  proof (cases r)
    case None
    with p Cons.prems(2) have "place_pass t1 ds (remove1 doc u) = (t', u')"
      by simp
    with rest have "mset (iter t') + mset u' = mset (iter t1) + mset (remove1 doc u)"
      by (intro Cons.IH) simp_all
    also have "mset (iter t1) = add_mset doc (mset (iter t))"
      using p None by (simp add: place_mset(1))
    finally show ?thesis
      using doc by simp
  next
    case (Some e)
    with p have "t1 = t"
      by (simp add: place_unchanged(1))
    with p Some Cons.prems(2) have "place_pass t ds u = (t', u')"
      by simp
    with rest' show ?thesis
      by (rule Cons.IH)
  qed
qed

lemma place_pass_progress:
  "mset ds \<subseteq># mset u \<Longrightarrow> \<exists>d\<in>set ds. accepts t d \<Longrightarrow> length (snd (place_pass t ds u)) < length u"
proof (induction ds arbitrary: t u)
  case Nil
  then show ?case by simp
next
  case (Cons doc ds)
  obtain r t1 where p: "place t doc = (r, t1)"
    by (cases "place t doc")
  show ?case
  proof (cases r)
    case None
    from Cons.prems(1) have "doc \<in> set u"
      by (auto simp: insert_subset_eq_iff)
    then have "length (remove1 doc u) < length u"
      using length_pos_if_in_set [of doc u] by (simp add: length_remove1)
    with place_pass_length [of t1 ds "remove1 doc u"] show ?thesis
      using p None by simp
  next
    case (Some e)
    with p have same: "t1 = t"
      by (simp add: place_unchanged(1))
    from p Some place_succeeds(1) [of t doc] have "\<not> accepts t doc"
      by simp
    with Cons.prems(2) have "\<exists>d\<in>set ds. accepts t d"
      by auto
    with Cons.IH [OF mset_subset_tail [OF Cons.prems(1)]] show ?thesis
      using p Some same by simp
  qed
qed

lemma place_pass_idle:
  "\<forall>d\<in>set ds. \<not> accepts t d \<Longrightarrow> place_pass t ds u = (t, u)"
proof (induction ds)
  case Nil
  show ?case by simp
next
  case (Cons doc ds)
  then have "fst (place t doc) \<noteq> None"
    by (simp add: place_succeeds(1))
  then obtain e where "place t doc = (Some e, t)"
    by (cases "place t doc") (auto dest: place_unchanged(1))
  with Cons show ?case
    by simp
qed

lemma place_pass_stuck:
  assumes "mset ds \<subseteq># mset u" and "length (snd (place_pass t ds u)) = length u"
  shows "place_pass t ds u = (t, u) \<and> (\<forall>d\<in>set ds. \<not> accepts t d)"
proof -
  from assms place_pass_progress [of ds u t] have "\<forall>d\<in>set ds. \<not> accepts t d"
    by fastforce
  with place_pass_idle show ?thesis
    by simp
qed

lemma place_pass_keeps:
  "x \<in> set u \<Longrightarrow> parent x = Some p \<Longrightarrow> p \<notin> prefix ` (set (iter t) \<union> set ds) \<Longrightarrow>
     x \<in> set (snd (place_pass t ds u))"
proof (induction ds arbitrary: t u)
  case Nil
  then show ?case by simp
next
  case (Cons doc ds)
  obtain r t1 where p: "place t doc = (r, t1)"
    by (cases "place t doc")
  show ?case
  proof (cases r)
    case None
    with p place_succeeds(1) [of t doc] have "accepts t doc"
      by simp
    moreover from Cons.prems(2,3) have "\<not> accepts t x"
      by (auto simp: accepts_def)
    ultimately have "doc \<noteq> x"
      by auto
    with Cons.prems(1) have "x \<in> set (remove1 doc u)"
      by simp
    moreover from p None have "set (iter t1) = insert doc (set (iter t))"
      by (metis place_mset(1) set_mset_add_mset_insert set_mset_mset)
    with Cons.prems(3) have "p \<notin> prefix ` (set (iter t1) \<union> set ds)"
      by auto
    ultimately have "x \<in> set (snd (place_pass t1 ds (remove1 doc u)))"
      using Cons.prems(2) by (intro Cons.IH)
    with p None show ?thesis
      by simp
  next
    case (Some e)
    with p have "t1 = t"
      by (simp add: place_unchanged(1))
    moreover from Cons.prems(3) have "p \<notin> prefix ` (set (iter t) \<union> set ds)"
      by auto
    with Cons.prems(1,2) have "x \<in> set (snd (place_pass t ds u))"
      by (intro Cons.IH)
    ultimately show ?thesis
      using p Some by simp
  qed
qed

subsection \<open>The loop\<close>

lemma connected_subset: "d \<in> connected r D \<Longrightarrow> d = r \<or> d \<in> D"
  by (induction rule: connected.induct) auto

lemma connected_accepts:
  assumes "d \<in> connected r D" and "D \<subseteq> set (iter t) \<union> set u" and "r \<in> set (iter t)"
    and "parent r = None" and "\<forall>x\<in>set u. parent x \<noteq> None" and "d \<in> set u"
  shows "\<exists>x\<in>set u. accepts t x"
  using assms
proof (induction rule: connected.induct)
  case root
  then show ?case by auto
next
  case (child d d')
  show ?case
  proof (cases "d' \<in> set (iter t)")
    case True
    with child.hyps(2) child.prems(5) show ?thesis
      by (auto simp: accepts_def)
  next
    case False
    with connected_subset [OF child.hyps(3)] child.prems(1,2) have "d' \<in> set u"
      by auto
    with child.IH child.prems show ?thesis
      by blast
  qed
qed

lemma place_loop_result:
  "place_loop t u = Inr t' \<Longrightarrow>
     mset (iter t') = mset (iter t) + mset u \<and> document t' = document t \<and> (linked t \<longrightarrow> linked t')"
proof (induction t u rule: place_loop.induct)
  case (1 tree unplaced)
  show ?case
  proof (cases "unplaced = []")
    case True
    with "1.prems" show ?thesis
      by (simp add: place_loop.simps)
  next
    case False
    obtain t1 u1 where pass: "place_pass tree unplaced unplaced = (t1, u1)"
      by (cases "place_pass tree unplaced unplaced")
    with False "1.prems" have moved: "length u1 \<noteq> length unplaced" and rest: "place_loop t1 u1 = Inr t'"
      by (auto simp: place_loop.simps [of tree] split: if_splits list.splits)
    from "1.IH" [OF False pass [symmetric] moved rest]
    have "mset (iter t') = mset (iter t1) + mset u1" "document t' = document t1" "linked t1 \<longrightarrow> linked t'"
      by simp_all
    moreover from place_pass_mset [OF _ pass] have "mset (iter t1) + mset u1 = mset (iter tree) + mset unplaced"
      by simp
    moreover from place_pass_document [of tree unplaced unplaced] pass have "document t1 = document tree"
      by simp
    moreover from place_pass_linked [of tree unplaced unplaced] pass have "linked tree \<longrightarrow> linked t1"
      by simp
    ultimately show ?thesis
      by simp
  qed
qed

lemma place_loop_succeeds:
  assumes "parent r = None" and "r \<in> set (iter t)"
    and "\<forall>d\<in>set u. parent d \<noteq> None \<and> d \<in> connected r (set (iter t) \<union> set u)"
  shows "\<exists>t'. place_loop t u = Inr t'"
  using assms
proof (induction t u rule: place_loop.induct)
  case (1 tree unplaced)
  show ?case
  proof (cases "unplaced = []")
    case True
    then show ?thesis
      by (simp add: place_loop.simps)
  next
    case False
    obtain t1 u1 where pass: "place_pass tree unplaced unplaced = (t1, u1)"
      by (cases "place_pass tree unplaced unplaced")
    from False obtain d where "d \<in> set unplaced"
      by (cases unplaced) auto
    with "1.prems" connected_accepts [of d r "set (iter tree) \<union> set unplaced" tree unplaced]
    have "\<exists>x\<in>set unplaced. accepts tree x"
      by auto
    with place_pass_progress [of unplaced unplaced tree] pass have moved: "length u1 \<noteq> length unplaced"
      by simp
    from place_pass_mset [OF _ pass] have "mset (iter t1) + mset u1 = mset (iter tree) + mset unplaced"
      by simp
    then have "set_mset (mset (iter t1) + mset u1) = set_mset (mset (iter tree) + mset unplaced)"
      by simp
    then have same: "set (iter t1) \<union> set u1 = set (iter tree) \<union> set unplaced"
      by simp
    from place_pass_subset [of tree unplaced unplaced] pass have sub: "set u1 \<subseteq> set unplaced"
      by simp
    have "r \<in> set (iter t1)"
    proof -
      from "1.prems"(1,3) have "r \<notin> set unplaced" by auto
      with sub have "r \<notin> set u1" by auto
      with same "1.prems"(2) show ?thesis by auto
    qed
    moreover from sub same "1.prems"(3)
    have "\<forall>d\<in>set u1. parent d \<noteq> None \<and> d \<in> connected r (set (iter t1) \<union> set u1)"
      by auto
    ultimately have "\<exists>t'. place_loop t1 u1 = Inr t'"
      using "1.prems"(1) by (intro "1.IH" [OF False pass [symmetric] moved])
    with False pass moved show ?thesis
      by (simp add: place_loop.simps [of tree])
  qed
qed

lemma place_loop_error: "place_loop t u = Inl e \<Longrightarrow> \<exists>d\<in>set u. e = UnplacedDocument d"
proof (induction t u rule: place_loop.induct)
  case (1 tree unplaced)
  obtain t1 u1 where pass: "place_pass tree unplaced unplaced = (t1, u1)"
    by (cases "place_pass tree unplaced unplaced")
  from "1.prems" have nonempty: "unplaced \<noteq> []"
    by (auto simp: place_loop.simps)
  from place_pass_subset [of tree unplaced unplaced] pass have sub: "set u1 \<subseteq> set unplaced"
    by simp
  show ?case
  proof (cases "length u1 = length unplaced")
    case True
    with nonempty pass "1.prems" sub show ?thesis
      by (cases u1) (auto simp: place_loop.simps)
  next
    case False
    with nonempty pass "1.prems" have "place_loop t1 u1 = Inl e"
      by (simp add: place_loop.simps)
    with "1.IH" [OF nonempty pass [symmetric] False] sub show ?thesis
      by auto
  qed
qed

lemma find_filter: "find P xs = (case filter P xs of [] \<Rightarrow> None | x # _ \<Rightarrow> Some x)"
  by (induction xs) auto

lemma set_remove1_insert: "x \<in> set xs \<Longrightarrow> insert x (set (remove1 x xs)) = set xs"
  by (induction xs) auto

lemma from_list_connected:
  assumes root: "filter (\<lambda>d. parent d = None) docs = [r]"
    and conn: "\<forall>d\<in>set docs. d \<in> connected r (set docs)"
  shows "\<exists>t. from_list docs = Inr t"
proof -
  have "r \<in> set (filter (\<lambda>d. parent d = None) docs)"
    by (simp add: root)
  then have r: "r \<in> set docs" "parent r = None"
    by simp_all
  from root have start: "from_list docs = place_loop (Node r []) (remove1 r docs)"
    by (simp add: from_list_def find_filter)
  have "filter (\<lambda>d. parent d = None) (remove1 r docs) = remove1 r (filter (\<lambda>d. parent d = None) docs)"
    by (rule filter_remove1)
  with root have "filter (\<lambda>d. parent d = None) (remove1 r docs) = []"
    by simp
  then have rest: "\<forall>d\<in>set (remove1 r docs). parent d \<noteq> None"
    by (simp add: filter_empty_conv)
  from r(1) have all: "set (iter (Node r [])) \<union> set (remove1 r docs) = set docs"
    by (simp add: set_remove1_insert)
  have "\<exists>t. place_loop (Node r []) (remove1 r docs) = Inr t"
  proof (rule place_loop_succeeds [of r])
    show "parent r = None" by (rule r(2))
    show "r \<in> set (iter (Node r []))" by simp
    show "\<forall>d\<in>set (remove1 r docs). parent d \<noteq> None \<and> d \<in> connected r (set (iter (Node r [])) \<union> set (remove1 r docs))"
      unfolding all using rest conn by (auto dest: notin_set_remove1)
  qed
  with start show ?thesis
    by simp
qed

lemma from_list_result:
  assumes "from_list docs = Inr t"
  shows "mset (iter t) = mset docs \<and> find (\<lambda>d. parent d = None) docs = Some (document t) \<and> linked t"
proof -
  from assms obtain r where r: "find (\<lambda>d. parent d = None) docs = Some r"
    and loop: "place_loop (Node r []) (remove1 r docs) = Inr t"
    by (auto simp: from_list_def split: option.splits)
  from r have "r \<in> set docs"
    by (auto simp: find_Some_iff)
  with place_loop_result [OF loop] r show ?thesis
    by simp
qed

lemma references_insert:
  "references (insert d D) = (case parent d of None \<Rightarrow> {} | Some p \<Rightarrow> {(p, prefix d)}) \<union> references D"
  by (auto simp: references_def split: option.splits)

lemma references_UN: "references (\<Union>x\<in>A. f x) = (\<Union>x\<in>A. references (f x))"
  by (auto simp: references_def)

lemma iter_document: "set (iter t) = insert (document t) (set (tl (iter t)))"
  by (cases t) simp

lemma linked_edges: "linked t \<Longrightarrow> edges t = references (set (tl (iter t)))"
proof (induction t)
  case (Node d cs)
  have "insert (prefix d, prefix (document c)) (edges c) = references (set (iter c))" if "c \<in> set cs" for c
  proof -
    from that Node.prems have "parent (document c) = Some (prefix d)" "linked c"
      by simp_all
    with Node.IH [OF that] show ?thesis
      by (subst iter_document) (simp add: references_insert)
  qed
  then have "(\<Union>c\<in>set cs. references (set (iter c))) = (\<Union>c\<in>set cs. insert (prefix d, prefix (document c)) (edges c))"
    by simp
  also have "\<dots> = edges (Node d cs)"
    by auto
  finally show ?case
    by (simp add: references_UN)
qed

lemma linked_parents: "linked t \<Longrightarrow> \<forall>d\<in>set (tl (iter t)). parent d \<noteq> None"
proof (induction t)
  case (Node d cs)
  have "parent x \<noteq> None" if "c \<in> set cs" "x \<in> set (iter c)" for c x
  proof -
    from that(1) Node.prems have "parent (document c) = Some (prefix d)" "linked c"
      by simp_all
    with Node.IH [OF that(1)] that(2) show ?thesis
      by (subst (asm) iter_document) auto
  qed
  then show ?case
    by auto
qed

lemma linked_connected:
  "linked t \<Longrightarrow> document t \<in> connected r D \<Longrightarrow> set (iter t) \<subseteq> D \<Longrightarrow> set (iter t) \<subseteq> connected r D"
proof (induction t)
  case (Node d cs)
  have "set (iter c) \<subseteq> connected r D" if "c \<in> set cs" for c
  proof (rule Node.IH [OF that])
    from that Node.prems(1) show "linked c"
      by simp
    from that Node.prems(3) show sub: "set (iter c) \<subseteq> D"
      by auto
    then have "document c \<in> D"
      by (subst (asm) iter_document) simp
    moreover from that Node.prems(1) have "parent (document c) = Some (prefix d)"
      by simp
    ultimately show "document c \<in> connected r D"
      using Node.prems(2) by (auto intro: connected.child)
  qed
  with Node.prems(2) show ?case
    by auto
qed

lemma reached_loop: "reached docs t u \<Longrightarrow> from_list docs = place_loop t u"
proof (induction rule: reached.induct)
  case (start r)
  then show ?case
    by (simp add: from_list_def)
next
  case (pass t u t' u')
  then show ?case
    by (simp add: place_loop.simps [of t])
qed

lemma stuck_loop:
  assumes "stuck t u"
  shows "place_loop t u = Inl (UnplacedDocument (hd u))"
proof -
  from assms have "u \<noteq> []" and "length (snd (place_pass t u u)) = length u"
    by (simp_all add: stuck_def)
  moreover from this(2) have "place_pass t u u = (t, u)"
    using place_pass_stuck [of u u t] by simp
  ultimately show ?thesis
    by (cases u) (simp_all add: place_loop.simps [of t])
qed

lemma reached_mset: "reached docs t u \<Longrightarrow> mset (iter t) + mset u = mset docs"
proof (induction rule: reached.induct)
  case (start r)
  then have "r \<in> set docs"
    by (auto simp: find_Some_iff)
  then show ?case
    by simp
next
  case (pass t u t' u')
  with place_pass_mset [of u u t t' u'] show ?case
    by simp
qed

lemma dangling_stuck:
  assumes "reached docs t u" and "x \<in> set u" and "parent x = Some p" and "p \<notin> prefix ` set docs"
  shows "\<exists>t' u'. reached docs t' u' \<and> stuck t' u'"
  using assms(1,2)
proof (induction "length u" arbitrary: t u rule: less_induct)
  case less
  obtain t1 u1 where pass: "place_pass t u u = (t1, u1)"
    by (cases "place_pass t u u")
  from less.prems(2) have nonempty: "u \<noteq> []"
    by auto
  show ?case
  proof (cases "length u1 = length u")
    case True
    with pass nonempty have "stuck t u"
      by (simp add: stuck_def)
    with less.prems(1) show ?thesis
      by blast
  next
    case False
    with less.prems(1) nonempty pass have next_state: "reached docs t1 u1"
      by (rule reached.pass)
    from place_pass_length [of t u u] pass False have shorter: "length u1 < length u"
      by simp
    from reached_mset [OF less.prems(1)] have "set (iter t) \<union> set u = set docs"
      by (metis set_mset_mset set_mset_union)
    with assms(4) have "p \<notin> prefix ` (set (iter t) \<union> set u)"
      by simp
    with place_pass_keeps [OF less.prems(2) assms(3), of t u] pass have "x \<in> set u1"
      by simp
    with less.hyps [OF shorter next_state] show ?thesis
      by simp
  qed
qed



subsection \<open>The examples\<close>

lemmas ex = doc_REQ_def doc_HLT_def doc_LLT_def doc_C_def doc_hlt_def doc_E_def

lemma lower_examples:
  "lower ''REQ'' = ''req''" "lower ''HLT'' = ''hlt''" "lower ''hlt'' = ''hlt''" "lower ''req'' = ''req''"
  by code_simp+

section \<open>The claims\<close>



text \<open>
  C2. The document \<open>doc_hlt\<close> declares the parent \<^verbatim>\<open>req\<close>, which equals the prefix
  \<^verbatim>\<open>REQ\<close> under the comparison in lower case that \<^verbatim>\<open>add\<close>, \<^verbatim>\<open>link\<close> and
  \<^verbatim>\<open>edit\<close> make on prefixes (lines 163, 183, 200 and 229). \<^verbatim>\<open>place\<close> on the
  node of \<open>REQ\<close> compares with \<^verbatim>\<open>==\<close> (line 102): it raises, the tree stays as
  it was, and \<^verbatim>\<open>from_list\<close> on the two documents raises \<^verbatim>\<open>unplaced document\<close>
  for \<open>doc_hlt\<close>.
\<close>

theorem place_case_example:
  "parent doc_hlt = Some ''req'' \<and> lower ''req'' = lower (prefix doc_REQ) \<and>
   place (Node doc_REQ []) doc_hlt = (Some (NoParentFor doc_hlt), Node doc_REQ []) \<and>
   from_list [doc_hlt, doc_REQ] = Inl (UnplacedDocument doc_hlt)"
  by (simp add: ex lower_examples from_list_def place_loop.simps)

text \<open>
  C3, as stated, fails on a list without a root: the only document declares a
  parent that no document has, and \<^verbatim>\<open>from_list\<close> raises \<^verbatim>\<open>no root document\<close>
  before any pass is made.
\<close>

theorem dangling_no_root_counterexample:
  "parent doc_C = Some ''Z'' \<and> ''Z'' \<notin> prefix ` set [doc_C] \<and> from_list [doc_C] = Inl NoRootDocument"
  by (simp add: ex from_list_def)

text \<open>
  C3, amended. Whenever the loop of \<^verbatim>\<open>from_list\<close> reaches a stuck state, that is
  documents remain and a full pass removes none, \<^verbatim>\<open>from_list\<close> raises
  \<^verbatim>\<open>unplaced document\<close> for the first document that remains, and returns no
  tree. When the list has a document with an empty parent and some document
  declares a parent that is the prefix of no document of the list, the loop
  reaches a stuck state.
\<close>

theorem stuck_unplaced:
  "(reached docs t u \<and> stuck t u \<longrightarrow> from_list docs = Inl (UnplacedDocument (hd u))) \<and>
   (find (\<lambda>doc. parent doc = None) docs \<noteq> None \<and> x \<in> set docs \<and> parent x = Some p \<and>
      p \<notin> prefix ` set docs \<longrightarrow>
    (\<exists>t u. reached docs t u \<and> stuck t u \<and> from_list docs = Inl (UnplacedDocument (hd u))))"
proof (intro conjI impI)
  assume "reached docs t u \<and> stuck t u"
  then show "from_list docs = Inl (UnplacedDocument (hd u))"
    using reached_loop [of docs t u] stuck_loop [of t u] by simp
next
  assume a: "find (\<lambda>doc. parent doc = None) docs \<noteq> None \<and> x \<in> set docs \<and> parent x = Some p \<and>
      p \<notin> prefix ` set docs"
  then obtain r where r: "find (\<lambda>doc. parent doc = None) docs = Some r"
    by auto
  then have "parent r = None"
    by (auto simp: find_Some_iff)
  with a have "x \<noteq> r"
    by auto
  with a have "x \<in> set (remove1 r docs)"
    by simp
  with reached.start [OF r] a obtain t' u' where "reached docs t' u'" "stuck t' u'"
    using dangling_stuck by blast
  moreover from this have "from_list docs = Inl (UnplacedDocument (hd u'))"
    using reached_loop [of docs t' u'] stuck_loop [of t' u'] by simp
  ultimately show "\<exists>t u. reached docs t u \<and> stuck t u \<and> from_list docs = Inl (UnplacedDocument (hd u))"
    by blast
qed

theorem stuck_unplaced_witness:
  "find (\<lambda>doc. parent doc = None) [doc_REQ, doc_HLT, doc_C] \<noteq> None \<and>
   parent doc_C = Some ''Z'' \<and> ''Z'' \<notin> prefix ` set [doc_REQ, doc_HLT, doc_C] \<and>
   from_list [doc_REQ, doc_HLT, doc_C] = Inl (UnplacedDocument doc_C)"
proof -
  let ?docs = "[doc_REQ, doc_HLT, doc_C]"
  have root: "find (\<lambda>doc. parent doc = None) ?docs = Some doc_REQ"
    by (simp add: ex)
  have "remove1 doc_REQ ?docs = [doc_HLT, doc_C]"
    by simp
  with reached.start [OF root] have initial: "reached ?docs (Node doc_REQ []) [doc_HLT, doc_C]"
    by simp
  have "place_pass (Node doc_REQ []) [doc_HLT, doc_C] [doc_HLT, doc_C] =
      (Node doc_REQ [Node doc_HLT []], [doc_C])"
    by (simp add: ex)
  with initial have state: "reached ?docs (Node doc_REQ [Node doc_HLT []]) [doc_C]"
    using reached.pass [of ?docs "Node doc_REQ []" "[doc_HLT, doc_C]" "Node doc_REQ [Node doc_HLT []]" "[doc_C]"]
    by simp
  have halt: "stuck (Node doc_REQ [Node doc_HLT []]) [doc_C]"
    by (simp add: stuck_def ex)
  have dangling: "parent doc_C = Some ''Z''" "''Z'' \<notin> prefix ` set ?docs"
    by (simp_all add: ex)
  from state halt root dangling
    stuck_unplaced [of ?docs "Node doc_REQ [Node doc_HLT []]" "[doc_C]" doc_C "''Z''"]
  show ?thesis
    by simp
qed

text \<open>
  C4, as stated, fails for a parent that is the empty string: line 67 tests
  \<^verbatim>\<open>doc.parent is None\<close>, and the empty string is not \<^verbatim>\<open>None\<close>. The document
  \<open>E\<close> alone gives \<^verbatim>\<open>no root document\<close>; listed before \<open>REQ\<close> it is not the
  root but the document that cannot be placed.
\<close>

theorem empty_string_parent_counterexample:
  "parent doc_E = Some [] \<and> from_list [doc_E] = Inl NoRootDocument \<and>
   from_list [doc_E, doc_REQ] = Inl (UnplacedDocument doc_E)"
  by (simp add: ex from_list_def place_loop.simps)

text \<open>
  C4, amended. When no document of the list has the parent \<^verbatim>\<open>None\<close>,
  \<^verbatim>\<open>from_list\<close> raises \<^verbatim>\<open>no root document\<close>; a parent that is the empty string
  is a parent like any other. Otherwise the first document with the parent
  \<^verbatim>\<open>None\<close> in the order of the list is the root: the loop starts from the tree
  that holds only this document, with the other documents in their order as
  \<^verbatim>\<open>unplaced\<close>; the error \<^verbatim>\<open>no root document\<close> is not raised; and a tree that is
  returned has this document at its root.
\<close>

theorem from_list_root:
  "((\<forall>d\<in>set docs. parent d \<noteq> None) \<longrightarrow> from_list docs = Inl NoRootDocument) \<and>
   (docs = ys @ r # zs \<and> parent r = None \<and> (\<forall>d\<in>set ys. parent d \<noteq> None) \<longrightarrow>
      from_list docs = place_loop (Node r []) (ys @ zs) \<and>
      from_list docs \<noteq> Inl NoRootDocument \<and>
      (\<forall>t. from_list docs = Inr t \<longrightarrow> document t = r))"
proof (intro conjI impI)
  assume "\<forall>d\<in>set docs. parent d \<noteq> None"
  then have "find (\<lambda>doc. parent doc = None) docs = None"
    by (simp add: find_None_iff)
  then show "from_list docs = Inl NoRootDocument"
    by (simp add: from_list_def)
next
  assume a: "docs = ys @ r # zs \<and> parent r = None \<and> (\<forall>d\<in>set ys. parent d \<noteq> None)"
  then have "filter (\<lambda>doc. parent doc = None) ys = []"
    by (simp add: filter_empty_conv)
  with a have first: "find (\<lambda>doc. parent doc = None) docs = Some r"
    by (simp add: find_filter)
  from a have "r \<notin> set ys"
    by auto
  with a have "remove1 r docs = ys @ zs"
    by (simp add: remove1_append)
  with first show loop: "from_list docs = place_loop (Node r []) (ys @ zs)"
    by (simp add: from_list_def)
  then show "from_list docs \<noteq> Inl NoRootDocument"
    using place_loop_error [of "Node r []" "ys @ zs" NoRootDocument] by auto
  from loop show "\<forall>t. from_list docs = Inr t \<longrightarrow> document t = r"
    using place_loop_result [of "Node r []" "ys @ zs"] by auto
qed

theorem from_list_root_witness:
  "from_list [doc_C] = Inl NoRootDocument \<and>
   from_list [doc_HLT, doc_REQ, doc_LLT] = place_loop (Node doc_REQ []) [doc_HLT, doc_LLT] \<and>
   from_list [doc_HLT, doc_REQ, doc_LLT] = Inr (Node doc_REQ [Node doc_HLT [Node doc_LLT []]])"
proof -
  have none: "\<forall>d\<in>set [doc_C]. parent d \<noteq> None"
    by (simp add: ex)
  have first: "[doc_HLT, doc_REQ, doc_LLT] = [doc_HLT] @ doc_REQ # [doc_LLT] \<and> parent doc_REQ = None \<and>
      (\<forall>d\<in>set [doc_HLT]. parent d \<noteq> None)"
    by (simp add: ex)
  have built: "place_loop (Node doc_REQ []) [doc_HLT, doc_LLT] = Inr (Node doc_REQ [Node doc_HLT [Node doc_LLT []]])"
    by (simp add: place_loop.simps ex)
  from none first built
    from_list_root [of "[doc_C]" "[]" doc_C "[]"]
    from_list_root [of "[doc_HLT, doc_REQ, doc_LLT]" "[doc_HLT]" doc_REQ "[doc_LLT]"]
  show ?thesis
    by simp
qed

text \<open>
  C5. When \<^verbatim>\<open>from_list\<close> returns a tree for a list, it returns a tree for every
  permutation of the list, and the two trees have the same root document, the
  same documents and the same edges between prefixes. The order of the
  children may differ.
\<close>

theorem from_list_permutation:
  assumes ok: "from_list docs = Inr t" and perm: "mset docs' = mset docs"
  shows "\<exists>t'. from_list docs' = Inr t' \<and> document t' = document t \<and>
    mset (iter t') = mset (iter t) \<and> edges t' = edges t"
proof -
  let ?r = "document t"
  from from_list_result [OF ok]
  have docs: "mset (iter t) = mset docs" and "find (\<lambda>d. parent d = None) docs = Some ?r" and linked: "linked t"
    by simp_all
  then have root: "parent ?r = None"
    by (auto simp: find_Some_iff)
  from docs perm have same: "set docs' = set (iter t)"
    by (metis set_mset_mset)
  have "filter (\<lambda>d. parent d = None) (iter t) = [?r]"
    using linked_parents [OF linked] root by (cases t) (simp add: filter_empty_conv)
  then have "filter_mset (\<lambda>d. parent d = None) (mset (iter t)) = {#?r#}"
    by (metis mset_filter mset.simps(1,2))
  with docs perm have "mset (filter (\<lambda>d. parent d = None) docs') = mset [?r]"
    by simp
  then have "length (filter (\<lambda>d. parent d = None) docs') = 1"
    and "set (filter (\<lambda>d. parent d = None) docs') = {?r}"
    by (metis length_Cons list.size(3) mset_eq_length One_nat_def,
        metis mset_eq_setD list.simps(15) empty_set)
  then have first: "filter (\<lambda>d. parent d = None) docs' = [?r]"
    by (cases "filter (\<lambda>d. parent d = None) docs'") auto
  have "set (iter t) \<subseteq> connected ?r (set docs')"
    using linked same by (intro linked_connected) (simp_all add: connected.root)
  with same first obtain t' where ok': "from_list docs' = Inr t'"
    using from_list_connected [of docs' ?r] by auto
  from from_list_result [OF ok'] first
  have docs': "mset (iter t') = mset docs'" and root': "document t' = ?r" and linked': "linked t'"
    by (simp_all add: find_filter)
  from docs' perm docs have "mset (iter t') = mset (iter t)"
    by simp
  then have "mset (tl (iter t')) = mset (tl (iter t))"
    using root' by (cases t; cases t') simp
  then have "set (tl (iter t')) = set (tl (iter t))"
    by (metis set_mset_mset)
  with linked_edges [OF linked] linked_edges [OF linked'] have "edges t' = edges t"
    by simp
  with ok' root' \<open>mset (iter t') = mset (iter t)\<close> show ?thesis
    by simp
qed

theorem from_list_permutation_witness:
  "from_list [doc_HLT, doc_REQ] = Inr (Node doc_REQ [Node doc_HLT []]) \<and>
   (\<exists>t'. from_list [doc_REQ, doc_HLT] = Inr t' \<and> document t' = doc_REQ \<and>
      mset (iter t') = mset [doc_REQ, doc_HLT] \<and> edges t' = {(''REQ'', ''HLT'')})"
proof -
  have built: "from_list [doc_HLT, doc_REQ] = Inr (Node doc_REQ [Node doc_HLT []])"
    by (simp add: from_list_def place_loop.simps ex)
  have perm: "mset [doc_REQ, doc_HLT] = mset [doc_HLT, doc_REQ]"
    by simp
  have "edges (Node doc_REQ [Node doc_HLT []]) = {(''REQ'', ''HLT'')}"
    by (simp add: ex)
  with built from_list_permutation [OF built perm] show ?thesis
    by simp
qed

text \<open>
  C6, as stated, fails: the ID added to the links of the child is the
  \<^verbatim>\<open>id\<close> of the parent item that was found, not the argument \<^verbatim>\<open>pid\<close>. The
  search compares prefixes in lower case, so \<^verbatim>\<open>hlt1\<close> resolves to the item
  whose ID is \<^verbatim>\<open>HLT1\<close>, and \<^verbatim>\<open>HLT1\<close> is what the links of \<^verbatim>\<open>REQ1\<close> receive.
\<close>

theorem link_id_counterexample:
  "fst (link example_split_id (Node doc_REQ [Node doc_HLT []]) ''REQ1'' ''hlt1'' example_store) = Inr (0, 1) \<and>
   links (snd (link example_split_id (Node doc_REQ [Node doc_HLT []]) ''REQ1'' ''hlt1'' example_store) 0) = {''HLT1''} \<and>
   ''hlt1'' \<notin> links (snd (link example_split_id (Node doc_REQ [Node doc_HLT []]) ''REQ1'' ''hlt1'' example_store) 0)"
  by (simp add: link_def example_split_id_def example_store_def ex lower_examples add_link_def)

text \<open>
  C6, amended. When both IDs split and both searches find an item, \<^verbatim>\<open>link\<close>
  adds the \<^verbatim>\<open>id\<close> of the parent item found to the links of the child item
  found, changes no other item, and returns the pair of child and parent. When
  the search for the child finds nothing, the error is of the child kind; when
  the child is found and the search for the parent finds nothing, the error is
  of the parent kind. Whenever \<^verbatim>\<open>link\<close> raises, the store is unchanged.
\<close>

theorem link_result:
  "(split_id cid = Inr (pre, num) \<and> find_item st (iter self) pre num = Some c \<and>
    split_id pid = Inr (pre', num') \<and> find_item st (iter self) pre' num' = Some p \<longrightarrow>
      link split_id self cid pid st = (Inr (c, p), st(c := add_link (st c) (item_id (st p)))) \<and>
      links (snd (link split_id self cid pid st) c) = insert (item_id (st p)) (links (st c)) \<and>
      (\<forall>a. a \<noteq> c \<longrightarrow> snd (link split_id self cid pid st) a = st a)) \<and>
   (split_id cid = Inr (pre, num) \<and> find_item st (iter self) pre num = None \<longrightarrow>
      (\<exists>s. link split_id self cid pid st = (Inl (NoMatchingChildID s), st))) \<and>
   (split_id cid = Inr (pre, num) \<and> find_item st (iter self) pre num = Some c \<and>
    split_id pid = Inr (pre', num') \<and> find_item st (iter self) pre' num' = None \<longrightarrow>
      (\<exists>s. link split_id self cid pid st = (Inl (NoMatchingParentID s), st))) \<and>
   (\<forall>e. fst (link split_id self cid pid st) = Inl e \<longrightarrow> snd (link split_id self cid pid st) = st)"
  by (auto simp: link_def add_link_def split: sum.splits option.splits prod.splits)

theorem link_result_witness:
  "link example_split_id (Node doc_REQ [Node doc_HLT []]) ''REQ1'' ''HLT1'' example_store =
     (Inr (0, 1), example_store(0 := add_link (example_store 0) ''HLT1'')) \<and>
   (\<exists>s. link example_split_id (Node doc_REQ []) ''HLT1'' ''REQ1'' example_store =
      (Inl (NoMatchingChildID s), example_store)) \<and>
   (\<exists>s. link example_split_id (Node doc_REQ []) ''REQ1'' ''HLT1'' example_store =
      (Inl (NoMatchingParentID s), example_store))"
proof -
  let ?both = "Node doc_REQ [Node doc_HLT []]" and ?one = "Node doc_REQ []"
  have ids: "example_split_id ''REQ1'' = Inr (''REQ'', 1)" "example_split_id ''HLT1'' = Inr (''HLT'', 1)"
    by (simp_all add: example_split_id_def)
  have found: "find_item example_store (iter ?both) ''REQ'' 1 = Some 0"
    "find_item example_store (iter ?both) ''HLT'' 1 = Some 1"
    "find_item example_store (iter ?one) ''REQ'' 1 = Some 0"
    by (simp_all add: ex example_store_def lower_examples)
  have missing: "find_item example_store (iter ?one) ''HLT'' 1 = None"
    by (simp add: ex example_store_def lower_examples)
  have parent_id: "item_id (example_store 1) = ''HLT1''"
    by (simp add: example_store_def)
  from ids found missing parent_id
    link_result [of example_split_id "''REQ1''" "''REQ''" 1 example_store ?both 0 "''HLT1''" "''HLT''" 1 1]
    link_result [of example_split_id "''HLT1''" "''HLT''" 1 example_store ?one 0 "''REQ1''" "''REQ''" 1 0]
    link_result [of example_split_id "''REQ1''" "''REQ''" 1 example_store ?one 0 "''HLT1''" "''HLT''" 1 1]
  show ?thesis
    by simp
qed

text \<open>
  C7. \<^verbatim>\<open>link("REQ1", "HLT1")\<close> on a tree that has the item \<^verbatim>\<open>REQ1\<close> and no item
  \<^verbatim>\<open>HLT1\<close>: the error is of the parent kind, and the ID formatted into its message
  is the child's, \<^verbatim>\<open>REQ1\<close>. Line 211 formats \<^verbatim>\<open>cid\<close> where line 194, for the
  child, formats the ID that was not found.
\<close>

theorem link_parent_error_example:
  "link example_split_id (Node doc_REQ []) ''REQ1'' ''HLT1'' example_store =
     (Inl (NoMatchingParentID ''REQ1''), example_store)"
  by (simp add: link_def example_split_id_def example_store_def ex lower_examples)

text \<open>
  C8. When \<^verbatim>\<open>Document.new\<close> has created the document and \<^verbatim>\<open>place\<close> raises,
  \<^verbatim>\<open>Node.new\<close> raises the error of \<^verbatim>\<open>place\<close>, the tree is the tree before the
  call, and the path of the document does not exist afterwards: if it existed
  it was removed with everything below it, and no other path changed.
\<close>

theorem new_rollback:
  assumes "document_new pth (root (document self)) pre par digits files = (Inr doc, files1)"
    and "fst (place self doc) = Some e"
  shows "\<exists>files2. new document_new self pth pre par digits files = (Inl e, self, files2) \<and>
    \<not> files2 (path doc) \<and> (\<forall>q. files2 q \<longleftrightarrow> files1 q \<and> \<not> (files1 (path doc) \<and> below (path doc) q))"
proof -
  from assms(2) have "place self doc = (Some e, self)"
    by (cases "place self doc") (auto dest: place_unchanged(1))
  with assms(1) show ?thesis
    by (auto simp: new_def rmtree_def below_def)
qed

theorem new_rollback_witness:
  "fst (new example_document_new (Node doc_REQ []) ''/repo/xyz'' ''XYZ'' (Some ''ABC'') None (\<lambda>q. False)) =
     Inl (NoParentFor \<lparr>path = ''/repo/xyz'', root = ''/repo'', prefix = ''XYZ'', parent = Some ''ABC'', items = []\<rparr>) \<and>
   fst (snd (new example_document_new (Node doc_REQ []) ''/repo/xyz'' ''XYZ'' (Some ''ABC'') None (\<lambda>q. False))) =
     Node doc_REQ [] \<and>
   \<not> snd (snd (new example_document_new (Node doc_REQ []) ''/repo/xyz'' ''XYZ'' (Some ''ABC'') None (\<lambda>q. False)))
       ''/repo/xyz''"
proof -
  let ?doc = "\<lparr>path = ''/repo/xyz'', root = ''/repo'', prefix = ''XYZ'', parent = Some ''ABC'', items = []\<rparr>"
  have created: "example_document_new ''/repo/xyz'' (root (document (Node doc_REQ []))) ''XYZ'' (Some ''ABC'') None
      (\<lambda>q. False) = (Inr ?doc, (\<lambda>q. False)(''/repo/xyz'' := True))"
    by (simp add: example_document_new_def ex)
  have refused: "fst (place (Node doc_REQ []) ?doc) = Some (NoParentFor ?doc)"
    by (simp add: ex)
  from new_rollback [of example_document_new "''/repo/xyz''" "Node doc_REQ []" "''XYZ''" "Some ''ABC''" None
      "\<lambda>q. False" ?doc "(\<lambda>q. False)(''/repo/xyz'' := True)" "NoParentFor ?doc", OF created refused]
  obtain files2 where
    result: "new example_document_new (Node doc_REQ []) ''/repo/xyz'' ''XYZ'' (Some ''ABC'') None (\<lambda>q. False) =
      (Inl (NoParentFor ?doc), Node doc_REQ [], files2)"
    and gone: "\<not> files2 (path ?doc)"
    by blast
  from gone have "\<not> files2 ''/repo/xyz''"
    by simp
  with result show ?thesis
    by (simp only: fst_conv snd_conv simp_thms)
qed



text \<open>
  C10. The size reported for a node is the number of documents its iteration
  yields: one plus the sizes of its children, which is the length of the
  pre-order document sequence.
\<close>

theorem len_eq_length_iter:
  "len n = length (iter n) \<and> len (Node d cs) = 1 + sum_list (map len cs)"
proof -
  have "len n = length (iter n)"
  proof (induction n)
    case (Node d cs)
    then have sizes: "map len cs = map (\<lambda>c. length (iter c)) cs"
      by simp
    show ?case
      by (simp add: length_concat comp_def sizes)
  qed
  then show ?thesis
    by simp
qed

end
